theory Spec2Isabelle
  imports Main "HOL-Library.Word" "HOL-Library.Monad_Syntax"
begin

unbundle bit_operations_syntax

section \<open>Go values\<close>

text \<open>
  The buffered input of \<^verbatim>\<open>input.go\<close> (package parse). A Go \<^verbatim>\<open>byte\<close> is an 8-bit word
  and a \<^verbatim>\<open>rune\<close> (an \<^verbatim>\<open>int32\<close>) a 32-bit word. A Go \<^verbatim>\<open>int\<close> is taken to be 64 bits wide (the usual
  platform); it is modelled as a HOL integer, and every addition or subtraction of the
  source whose operands come from the caller or from the cursor is written with the
  wrap-around of the machine (\<open>go_add\<close>, \<open>go_sub\<close>).

  A run-time panic of Go (index out of range, slice bounds out of range) is the value
  \<open>None\<close> of an option type; \<open>Some\<close> carries the result of a call that returns.
\<close>

type_synonym byte = "8 word"
type_synonym rune = "32 word"

definition max_int :: int where
  "max_int = 2 ^ 63 - 1"

definition min_int :: int where
  "min_int = - (2 ^ 63)"

definition wrap64 :: "int \<Rightarrow> int" where
  "wrap64 x = (x + 2 ^ 63) mod 2 ^ 64 - 2 ^ 63"

definition go_add :: "int \<Rightarrow> int \<Rightarrow> int" where
  "go_add a b = wrap64 (a + b)"

definition go_sub :: "int \<Rightarrow> int \<Rightarrow> int" where
  "go_sub a b = wrap64 (a - b)"

definition in_range :: "int \<Rightarrow> bool" where
  "in_range x \<longleftrightarrow> min_int \<le> x \<and> x \<le> max_int"

abbreviation nl :: byte where
  "nl \<equiv> 0x0A"

text \<open>
  A slice expression \<^verbatim>\<open>b[lo:hi]\<close>. Go panics unless \<open>0 \<le> lo \<le> hi \<le> cap(b)\<close>. Every
  slice expression of the functions modelled here has its upper bound clamped to
  \<^verbatim>\<open>len(z.buf)\<close> or below before it is used, so the bound \<open>cap\<close> is never the one that
  decides and the length stands in for it.
\<close>

definition subslice :: "byte list \<Rightarrow> int \<Rightarrow> int \<Rightarrow> byte list option" where
  "subslice b lo hi =
     (if 0 \<le> lo \<and> lo \<le> hi \<and> hi \<le> int (length b)
      then Some (take (nat hi - nat lo) (drop (nat lo) b))
      else None)"

section \<open>The standard library functions the source calls\<close>

text \<open>
  \<^verbatim>\<open>bytes.Count(s, []byte{c})\<close> with a separator of one byte counts the occurrences of
  that byte.
\<close>

definition Count :: "byte list \<Rightarrow> byte \<Rightarrow> nat" where
  "Count s c = length (filter (\<lambda>b. b = c) s)"

text \<open>
  \<^verbatim>\<open>bytes.LastIndexByte(s, c)\<close>: the loop
  \<^verbatim>\<open>for i := len(s) - 1; i >= 0; i-- { if s[i] == c { return i } }; return -1\<close>.
\<close>

fun last_index_from :: "byte list \<Rightarrow> byte \<Rightarrow> nat \<Rightarrow> int" where
  "last_index_from s c 0 = - 1"
| "last_index_from s c (Suc i) = (if s ! i = c then int i else last_index_from s c i)"

definition LastIndexByte :: "byte list \<Rightarrow> byte \<Rightarrow> int" where
  "LastIndexByte s c = last_index_from s c (length s)"

text \<open>
  \<^verbatim>\<open>utf8.RuneCount(p)\<close> of package unicode/utf8. Each turn of its loop counts one rune
  and consumes the bytes of one well-formed encoding, or a single byte when the
  encoding at that place is invalid or cut short by the end of \<open>p\<close>. The table
  \<^verbatim>\<open>first\<close> gives, for a leading byte, the length of the encoding and the range accepted
  for the second byte (\<^verbatim>\<open>acceptRanges\<close>); the entry \<^verbatim>\<open>xx\<close> (invalid leading byte) is
  \<open>None\<close> here. The bytes after the second must lie in \<^verbatim>\<open>locb..hicb\<close>.
\<close>

definition RuneSelf :: byte where
  "RuneSelf = 0x80"

definition locb :: byte where
  "locb = 0x80"

definition hicb :: byte where
  "hicb = 0xBF"

definition first :: "byte \<Rightarrow> (nat \<times> byte \<times> byte) option" where
  "first c =
     (if c < 0xC2 then None
      else if c < 0xE0 then Some (2, locb, hicb)
      else if c = 0xE0 then Some (3, 0xA0, hicb)
      else if c < 0xED then Some (3, locb, hicb)
      else if c = 0xED then Some (3, locb, 0x9F)
      else if c < 0xF0 then Some (3, locb, hicb)
      else if c = 0xF0 then Some (4, 0x90, hicb)
      else if c < 0xF4 then Some (4, locb, hicb)
      else if c = 0xF4 then Some (4, locb, 0x8F)
      else None)"

text \<open>
  \<open>rune_step p\<close> is the number of bytes one turn of the loop consumes when \<open>p\<close> holds the
  bytes from the loop index \<open>i\<close> to the end (\<open>length p\<close> is \<^verbatim>\<open>np - i\<close>).
\<close>

fun rune_step :: "byte list \<Rightarrow> nat" where
  "rune_step [] = 0"
| "rune_step (c # cs) =
     (if c < RuneSelf then 1
      else case first c of
        None \<Rightarrow> 1
      | Some (sz, lo, hi) \<Rightarrow>
          if sz > length (c # cs) then 1
          else if cs ! 0 < lo \<or> hi < cs ! 0 then 1
          else if sz = 2 then 2
          else if cs ! 1 < locb \<or> hicb < cs ! 1 then 1
          else if sz = 3 then 3
          else if cs ! 2 < locb \<or> hicb < cs ! 2 then 1
          else sz)"

text \<open>
  The loop itself: one rune counted, then the rest after the consumed bytes (the
  leading byte and \<open>rune_step - 1\<close> more).
\<close>

fun RuneCount :: "byte list \<Rightarrow> nat" where
  "RuneCount [] = 0"
| "RuneCount (c # cs) = Suc (RuneCount (drop (rune_step (c # cs) - 1) cs))"

section \<open>The Input structure\<close>

text \<open>
  Go's \<^verbatim>\<open>error\<close> values that reach the structure: \<^verbatim>\<open>io.EOF\<close> and whatever
  \<^verbatim>\<open>io.ReadAll\<close> reports; \<^verbatim>\<open>nil\<close> is \<open>None\<close>.
\<close>

datatype error = EOF | ReadError string

text \<open>
  The field \<^verbatim>\<open>restore\<close> is a closure over the index \<open>n\<close> and the byte \<open>c\<close> it puts
  back: \<open>Some (n, c)\<close>, or \<open>None\<close> for \<^verbatim>\<open>nil\<close>. The closure writes to the array that
  \<^verbatim>\<open>z.buf\<close> shares with the caller's slice, so the write shows in \<open>buf\<close>.
\<close>

record Input =
  buf :: "byte list"
  pos :: int
  start :: int
  err :: "error option"
  restore :: "(nat \<times> byte) option"
  line :: int
  col :: int
  lastNewline :: int

definition nullBuffer :: "byte list" where
  "nullBuffer = [0]"

text \<open>
  A byte slice handed in by the caller: the backing array from the slice's first
  element to its capacity, and its length. The \<^verbatim>\<open>nil\<close> slice has an empty array and
  length 0.
\<close>

record bytes =
  arr :: "byte list"
  len :: nat

definition cap :: "bytes \<Rightarrow> nat" where
  "cap b = length (arr b)"

definition NewInputBytes :: "bytes \<Rightarrow> Input" where
  "NewInputBytes b =
     (let z = \<lparr>buf = take (len b) (arr b), pos = 0, start = 0, err = None, restore = None,
                line = 1, col = 1, lastNewline = - 1\<rparr>;
          n = len b
      in if n = 0 then z\<lparr>buf := nullBuffer\<rparr>
         else if cap b > n then
           z\<lparr>buf := (take (n + 1) (arr b))[n := 0], restore := Some (n, arr b ! n)\<rparr>
         else z\<lparr>buf := take n (arr b) @ [0]\<rparr>)"

text \<open>
  \<^verbatim>\<open>NewInputString(s)\<close> converts the string to a fresh slice; its capacity is taken to
  be its length (spare capacity would only set \<open>restore\<close>).
\<close>

definition NewInputString :: "byte list \<Rightarrow> Input" where
  "NewInputString s = NewInputBytes \<lparr>arr = s, len = length s\<rparr>"

text \<open>
  What \<^verbatim>\<open>NewInput\<close> can be given: \<^verbatim>\<open>nil\<close>, a reader with a \<^verbatim>\<open>Bytes()\<close> method (its
  result), or any other reader (the slice and the error that \<^verbatim>\<open>io.ReadAll\<close> returns
  for it).
\<close>

datatype reader = NilReader | BytesReader bytes | PlainReader bytes "error option"

fun NewInput :: "reader \<Rightarrow> Input" where
  "NewInput NilReader = NewInputBytes \<lparr>arr = [], len = 0\<rparr>"
| "NewInput (BytesReader b) = NewInputBytes b"
| "NewInput (PlainReader b (Some e)) =
     \<lparr>buf = nullBuffer, pos = 0, start = 0, err = Some e, restore = None,
      line = 1, col = 1, lastNewline = 0\<rparr>"
| "NewInput (PlainReader b None) = NewInputBytes b"

definition Restore :: "Input \<Rightarrow> Input" where
  "Restore z =
     (case restore z of
        None \<Rightarrow> z
      | Some (n, c) \<Rightarrow> z\<lparr>buf := (buf z)[n := c], restore := None\<rparr>)"

definition PeekErr :: "Input \<Rightarrow> int \<Rightarrow> error option" where
  "PeekErr z p =
     (if err z \<noteq> None then err z
      else if int (length (buf z)) - 1 \<le> go_add (pos z) p then Some EOF
      else None)"

definition Err :: "Input \<Rightarrow> error option" where
  "Err z = PeekErr z 0"

definition Peek :: "Input \<Rightarrow> int \<Rightarrow> byte option" where
  "Peek z p =
     (let i = go_add p (pos z)
      in if 0 \<le> i \<and> i < int (length (buf z)) then Some (buf z ! nat i) else None)"

definition PeekRune :: "Input \<Rightarrow> int \<Rightarrow> (rune \<times> int) option" where
  "PeekRune z p = do {
     c \<leftarrow> Peek z p;
     let r = go_sub (int (length (buf z)) - 1) (pos z);
     if c < 0xC0 \<or> r < 2 then Some (ucast c, 1)
     else if c < 0xE0 \<or> r < 3 then do {
       b1 \<leftarrow> Peek z (go_add p 1);
       Some (push_bit 6 (ucast (c AND 0x1F)) OR ucast (b1 AND 0x3F), 2)
     }
     else if c < 0xF0 \<or> r < 4 then do {
       b1 \<leftarrow> Peek z (go_add p 1);
       b2 \<leftarrow> Peek z (go_add p 2);
       Some (push_bit 12 (ucast (c AND 0x0F)) OR push_bit 6 (ucast (b1 AND 0x3F))
             OR ucast (b2 AND 0x3F), 3)
     }
     else do {
       b1 \<leftarrow> Peek z (go_add p 1);
       b2 \<leftarrow> Peek z (go_add p 2);
       b3 \<leftarrow> Peek z (go_add p 3);
       Some (push_bit 18 (ucast (c AND 0x07)) OR push_bit 12 (ucast (b1 AND 0x3F))
             OR push_bit 6 (ucast (b2 AND 0x3F)) OR ucast (b3 AND 0x3F), 4)
     }
   }"

text \<open>
  \<^verbatim>\<open>Move\<close>. The only expression that can panic is the first slice, before any field
  is written: once it has succeeded the last newline lies inside the moved bytes and
  the second slice is in bounds. So a panic leaves no half-updated structure behind
  and \<open>None\<close> loses nothing.
\<close>

definition Move :: "Input \<Rightarrow> int \<Rightarrow> Input option" where
  "Move z n =
     (if n \<le> 0 then Some z
      else
        let end0 = go_add (pos z) n;
            end = (if end0 > int (length (buf z)) - 1 then int (length (buf z)) - 1 else end0)
        in do {
          movedBytes \<leftarrow> subslice (buf z) (pos z) end;
          let newlines = int (Count movedBytes nl);
          if newlines > 0 then do {
            let ln = go_add (pos z) (LastIndexByte movedBytes nl);
            seg \<leftarrow> subslice (buf z) (go_add ln 1) end;
            Some (z\<lparr>line := go_add (line z) newlines, lastNewline := ln,
                    col := go_add (int (RuneCount seg)) 1, pos := end\<rparr>)
          }
          else Some (z\<lparr>col := go_add (col z) (int (RuneCount movedBytes)), pos := end\<rparr>)
        })"

definition MoveRune :: "Input \<Rightarrow> Input option" where
  "MoveRune z = do {
     (_, n) \<leftarrow> PeekRune z 0;
     Move z n
   }"

definition Pos :: "Input \<Rightarrow> int" where
  "Pos z = go_sub (pos z) (start z)"

definition Rewind :: "Input \<Rightarrow> int \<Rightarrow> Input" where
  "Rewind z p = z\<lparr>pos := go_add (start z) p\<rparr>"

definition Skip :: "Input \<Rightarrow> Input" where
  "Skip z = z\<lparr>start := pos z\<rparr>"

definition Offset :: "Input \<Rightarrow> int" where
  "Offset z = pos z"

definition Len :: "Input \<Rightarrow> int" where
  "Len z = int (length (buf z)) - 1"

definition Reset :: "Input \<Rightarrow> Input" where
  "Reset z = z\<lparr>start := 0, pos := 0, line := 1, col := 1, lastNewline := - 1\<rparr>"

definition Position :: "Input \<Rightarrow> int \<times> int" where
  "Position z = (line z, col z)"

definition PositionAt :: "Input \<Rightarrow> int \<Rightarrow> (int \<times> int) option" where
  "PositionAt z offset0 =
     (let offset = (if offset0 > int (length (buf z)) then int (length (buf z)) else offset0)
      in do {
        upto \<leftarrow> subslice (buf z) 0 offset;
        let lastNl = LastIndexByte upto nl;
        lines \<leftarrow> subslice (buf z) 0 (go_add lastNl 1);
        let ln = go_add (int (Count lines nl)) 1;
        seg \<leftarrow> subslice (buf z) (go_add lastNl 1) offset;
        Some (ln, go_add (int (RuneCount seg)) 1)
      })"

section \<open>Constructed inputs and the states they reach\<close>

text \<open>
  A caller's slice is well formed when its length is within its capacity, and the
  length with the terminator appended still leaves room in an \<^verbatim>\<open>int\<close>.
\<close>

definition bytes_ok :: "bytes \<Rightarrow> bool" where
  "bytes_ok b \<longleftrightarrow> len b \<le> cap b \<and> int (len b) + 1 < max_int"

fun reader_ok :: "reader \<Rightarrow> bool" where
  "reader_ok NilReader = True"
| "reader_ok (BytesReader b) = bytes_ok b"
| "reader_ok (PlainReader b (Some e)) = True"
| "reader_ok (PlainReader b None) = bytes_ok b"

inductive constructed :: "Input \<Rightarrow> bool" where
  by_bytes: "bytes_ok b \<Longrightarrow> constructed (NewInputBytes b)"
| by_reader: "reader_ok r \<Longrightarrow> constructed (NewInput r)"

text \<open>
  \<open>reaches z0 z\<close>: the state \<open>z\<close> is \<open>z0\<close> after some calls of the cursor operations that
  returned. \<^verbatim>\<open>Shift\<close> changes the state as \<^verbatim>\<open>Skip\<close> does. \<^verbatim>\<open>Restore\<close> is a step when
  there is no byte to put back (it then does nothing); when it does put a byte back
  over the terminator it ends the use of the buffer, and is not a step.
\<close>

inductive reaches :: "Input \<Rightarrow> Input \<Rightarrow> bool" where
  here: "reaches z0 z0"
| move: "reaches z0 z \<Longrightarrow> Move z n = Some z' \<Longrightarrow> reaches z0 z'"
| move_rune: "reaches z0 z \<Longrightarrow> MoveRune z = Some z' \<Longrightarrow> reaches z0 z'"
| rewind: "reaches z0 z \<Longrightarrow> reaches z0 (Rewind z m)"
| skip: "reaches z0 z \<Longrightarrow> reaches z0 (Skip z)"
| reset: "reaches z0 z \<Longrightarrow> reaches z0 (Reset z)"
| restore_nil: "reaches z0 z \<Longrightarrow> restore z = None \<Longrightarrow> reaches z0 (Restore z)"

section \<open>Notions the statements use\<close>

text \<open>
  The decoding at the head as the specification words it: with \<open>c\<close> the byte at \<open>pos\<close>
  and \<open>r = L - pos\<close> the bytes left before the terminator, the length is chosen by the
  leading byte and by \<open>r\<close>, and the code point is put together from the low bits of
  the following bytes \<open>b1\<close>, \<open>b2\<close>, \<open>b3\<close>, whatever they are.
\<close>

definition spec_head_rune :: "byte list \<Rightarrow> int \<Rightarrow> int \<Rightarrow> rune \<times> int" where
  "spec_head_rune b L p =
     (let c = b ! nat p; r = L - p;
          b1 = b ! nat (p + 1); b2 = b ! nat (p + 2); b3 = b ! nat (p + 3)
      in if c < 0xC0 \<or> r < 2 then (ucast c, 1)
         else if c < 0xE0 \<or> r < 3 then
           (push_bit 6 (ucast c AND 0x1F) OR (ucast b1 AND 0x3F), 2)
         else if c < 0xF0 \<or> r < 4 then
           (push_bit 12 (ucast c AND 0x0F) OR push_bit 6 (ucast b1 AND 0x3F)
            OR (ucast b2 AND 0x3F), 3)
         else
           (push_bit 18 (ucast c AND 0x07) OR push_bit 12 (ucast b1 AND 0x3F)
            OR push_bit 6 (ucast b2 AND 0x3F) OR (ucast b3 AND 0x3F), 4))"

text \<open>The bytes after the last newline of a stretch; all of it when it has none.\<close>

definition after_last_nl :: "byte list \<Rightarrow> byte list" where
  "after_last_nl xs = rev (takeWhile (\<lambda>b. b \<noteq> nl) (rev xs))"

text \<open>
  The test that \<open>rune_step\<close> makes on the bytes after a leading byte whose table entry
  is \<open>(sz, lo, hi)\<close>: there are enough of them and each lies in its range.
\<close>

definition well_formed :: "nat \<Rightarrow> byte \<Rightarrow> byte \<Rightarrow> byte list \<Rightarrow> bool" where
  "well_formed sz lo hi cs \<longleftrightarrow>
     sz \<le> Suc (length cs) \<and> lo \<le> cs ! 0 \<and> cs ! 0 \<le> hi
     \<and> (3 \<le> sz \<longrightarrow> locb \<le> cs ! 1 \<and> cs ! 1 \<le> hicb)
     \<and> (4 \<le> sz \<longrightarrow> locb \<le> cs ! 2 \<and> cs ! 2 \<le> hicb)"

text \<open>
  \<open>rune_boundary p k\<close>: the loop of \<^verbatim>\<open>utf8.RuneCount\<close>, run on \<open>p\<close>, has its index at
  \<open>k\<close> at the start of some turn or at its end; that is, \<open>k\<close> does not fall inside one
  of the runes that the loop counts.
\<close>

fun rune_boundary :: "byte list \<Rightarrow> nat \<Rightarrow> bool" where
  "rune_boundary p 0 = True"
| "rune_boundary [] (Suc k) = False"
| "rune_boundary (c # cs) (Suc k) =
     (rune_step (c # cs) \<le> Suc k
      \<and> rune_boundary (drop (rune_step (c # cs) - 1) cs) (Suc k - rune_step (c # cs)))"

text \<open>
  A sequence of calls \<^verbatim>\<open>Move(n1); ...; Move(nk)\<close>, and the offsets at which the cursor
  rests between two of them when it starts at \<open>p\<close> and no call is clamped.
\<close>

fun Moves :: "Input \<Rightarrow> int list \<Rightarrow> Input option" where
  "Moves z [] = Some z"
| "Moves z (n # ns) = Move z n \<bind> (\<lambda>z'. Moves z' ns)"

fun stops :: "int \<Rightarrow> int list \<Rightarrow> int list" where
  "stops p [] = []"
| "stops p [n] = []"
| "stops p (n # m # ns) = (p + n) # stops (p + n) (m # ns)"

text \<open>The bytes a \<^verbatim>\<open>Move(n)\<close> moves over: from \<open>pos\<close> to \<open>min (pos + n) Len\<close>.\<close>

definition crossed :: "Input \<Rightarrow> int \<Rightarrow> byte list" where
  "crossed z n =
     (let e = min (pos z + n) (Len z)
      in take (nat e - nat (pos z)) (drop (nat (pos z)) (buf z)))"

text \<open>What \<^verbatim>\<open>Position()\<close> returns after each call of a sequence of \<^verbatim>\<open>Move\<close> calls.\<close>

fun trace :: "Input \<Rightarrow> int list \<Rightarrow> (int \<times> int) list option" where
  "trace z [] = Some []"
| "trace z (n # ns) = Move z n \<bind> (\<lambda>z'. trace z' ns \<bind> (\<lambda>ps. Some (Position z' # ps)))"

text \<open>The test input \<^verbatim>\<open>"a\r\nb\n\rc\n\n"\<close>.\<close>

definition crlf_text :: "byte list" where
  "crlf_text = [0x61, 0x0D, 0x0A, 0x62, 0x0A, 0x0D, 0x63, 0x0A, 0x0A]"

section \<open>Machine arithmetic within range\<close>

lemma wrap64_id: "min_int \<le> x \<Longrightarrow> x \<le> max_int \<Longrightarrow> wrap64 x = x"
  by (simp add: wrap64_def min_int_def max_int_def)

lemma go_add_id: "min_int \<le> a + b \<Longrightarrow> a + b \<le> max_int \<Longrightarrow> go_add a b = a + b"
  by (simp add: go_add_def wrap64_id)

section \<open>The buffer of a constructed input\<close>

lemma buf_NewInputBytes:
  "len b \<le> cap b \<Longrightarrow> buf (NewInputBytes b) = take (len b) (arr b) @ [0]"
  apply (auto simp: NewInputBytes_def Let_def nullBuffer_def cap_def)
  apply (simp add: take_Suc_conv_app_nth list_update_append)
  done

lemma Move_frame:
  "Move z n = Some z' \<Longrightarrow>
   buf z' = buf z \<and> err z' = err z \<and> restore z' = restore z \<and> start z' = start z"
  by (auto simp: Move_def Let_def split: if_splits bind_splits)

lemma MoveRune_frame:
  "MoveRune z = Some z' \<Longrightarrow>
   buf z' = buf z \<and> err z' = err z \<and> restore z' = restore z \<and> start z' = start z"
  by (auto simp: MoveRune_def dest: Move_frame split: bind_splits)

lemma reaches_frame:
  "reaches z0 z \<Longrightarrow> buf z = buf z0 \<and> err z = err z0 \<and> restore z = restore z0"
  by (induction rule: reaches.induct)
     (auto simp: Rewind_def Skip_def Reset_def Restore_def dest: Move_frame MoveRune_frame)

lemma constructed_buf:
  "constructed z \<Longrightarrow> \<exists>bs. buf z = bs @ [0] \<and> int (length bs) + 1 < max_int"
proof (induction rule: constructed.induct)
  case (by_bytes b)
  then show ?case by (auto simp: bytes_ok_def buf_NewInputBytes cap_def min_def)
next
  case (by_reader r)
  show ?case
  proof (cases r rule: NewInput.cases)
    case 1
    then show ?thesis by (simp add: NewInputBytes_def nullBuffer_def max_int_def)
  next
    case (2 b)
    with by_reader show ?thesis by (simp add: bytes_ok_def buf_NewInputBytes cap_def min_def)
  next
    case (3 b e)
    then show ?thesis by (simp add: nullBuffer_def max_int_def)
  next
    case (4 b)
    with by_reader show ?thesis by (simp add: bytes_ok_def buf_NewInputBytes cap_def min_def)
  qed
qed

lemma reaches_buf:
  assumes "constructed z0" and "reaches z0 z"
  shows "\<exists>bs. buf z = bs @ [0] \<and> int (length bs) + 1 < max_int"
  using constructed_buf [OF assms(1)] reaches_frame [OF assms(2)] by simp

section \<open>Counting bytes, newlines and runes\<close>

lemma first_cases:
  "first c = Some (sz, lo, hi) \<Longrightarrow> (sz = 2 \<or> sz = 3 \<or> sz = 4) \<and> 0x80 \<le> lo"
  by (auto simp: first_def locb_def split: if_splits)

lemma first_ge: "first c = Some t \<Longrightarrow> \<not> c < RuneSelf"
  by (auto simp: first_def RuneSelf_def word_less_nat_alt split: if_splits)

lemma rune_step_some:
  assumes f: "first c = Some (sz, lo, hi)"
  shows "rune_step (c # cs) = (if well_formed sz lo hi cs then sz else 1)"
proof -
  note ge = first_ge [OF f]
  from first_cases [OF f] consider "sz = 2" | "sz = 3" | "sz = 4" by blast
  then show ?thesis
  proof cases
    case 1
    then show ?thesis using f ge by (auto simp: well_formed_def not_less Suc_le_eq)
  next
    case 2
    then show ?thesis using f ge by (auto simp: well_formed_def not_less Suc_le_eq)
  next
    case 3
    then show ?thesis using f ge by (auto simp: well_formed_def not_less Suc_le_eq)
  qed
qed

lemma rune_step_none: "first c = None \<Longrightarrow> rune_step (c # cs) = 1"
  by simp

declare rune_step.simps [simp del]

lemma well_formed_take:
  assumes "sz \<le> Suc m" and "sz = 2 \<or> sz = 3 \<or> sz = 4"
  shows "well_formed sz lo hi (take m cs) = well_formed sz lo hi cs"
proof -
  from assms(2) consider "sz = 2" | "sz = 3" | "sz = 4" by blast
  then show ?thesis
  proof cases
    case 1
    then show ?thesis using assms(1) by (auto simp: well_formed_def)
  next
    case 2
    then show ?thesis using assms(1) by (auto simp: well_formed_def)
  next
    case 3
    then show ?thesis using assms(1) by (auto simp: well_formed_def)
  qed
qed

lemma well_formed_short: "well_formed sz lo hi (take m cs) \<Longrightarrow> sz \<le> Suc m"
  by (auto simp: well_formed_def)

lemma rune_step_le: "rune_step (c # cs) \<le> length (c # cs)"
proof (cases "first c")
  case None
  then show ?thesis by (simp add: rune_step_none del: rune_step.simps)
next
  case (Some t)
  then show ?thesis
    by (cases t) (simp add: rune_step_some well_formed_def del: rune_step.simps)
qed

lemma rune_step_pos: "0 < rune_step (c # cs)"
proof (cases "first c")
  case None
  then show ?thesis by (simp add: rune_step_none del: rune_step.simps)
next
  case (Some t)
  then show ?thesis
    by (cases t) (auto simp add: rune_step_some dest: first_cases simp del: rune_step.simps)
qed

lemma rune_step_cont:
  assumes "1 \<le> i" and "i < rune_step (c # cs)"
  shows "0x80 \<le> (c # cs) ! i"
proof (cases "first c")
  case None
  with assms show ?thesis by (simp add: rune_step_none del: rune_step.simps)
next
  case (Some t)
  then obtain sz lo hi where f: "first c = Some (sz, lo, hi)"
    by (cases t) auto
  from first_cases [OF f] have lo: "0x80 \<le> lo" and sz: "sz = 2 \<or> sz = 3 \<or> sz = 4"
    by simp_all
  from assms have wf: "well_formed sz lo hi cs" and i: "i < sz"
    by (auto simp: rune_step_some [OF f] simp del: rune_step.simps split: if_splits)
  from i sz assms(1) have "i = 1 \<or> i = 2 \<and> 3 \<le> sz \<or> i = 3 \<and> 4 \<le> sz"
    by arith
  then consider "i = 1" | "i = 2" "3 \<le> sz" | "i = 3" "4 \<le> sz"
    by blast
  then show ?thesis
  proof cases
    case 1
    then show ?thesis using wf lo by (auto simp: well_formed_def)
  next
    case 2
    then show ?thesis using wf by (simp add: well_formed_def locb_def)
  next
    case 3
    then show ?thesis using wf by (simp add: well_formed_def locb_def numeral_2_eq_2)
  qed
qed

lemma rune_step_take:
  assumes "rune_step (c # cs) \<le> Suc m"
  shows "rune_step (c # take m cs) = rune_step (c # cs)"
proof (cases "first c")
  case None
  then show ?thesis by (simp add: rune_step_none del: rune_step.simps)
next
  case (Some t)
  then obtain sz lo hi where f: "first c = Some (sz, lo, hi)"
    by (cases t) auto
  from first_cases [OF f] have sz: "sz = 2 \<or> sz = 3 \<or> sz = 4"
    by simp
  show ?thesis
  proof (cases "sz \<le> Suc m")
    case True
    then show ?thesis
      by (simp add: rune_step_some [OF f] well_formed_take [OF True sz] del: rune_step.simps)
  next
    case False
    then have "\<not> well_formed sz lo hi (take m cs)"
      using well_formed_short by blast
    moreover have "\<not> well_formed sz lo hi cs"
      using assms False by (auto simp: rune_step_some [OF f] simp del: rune_step.simps split: if_splits)
    ultimately show ?thesis
      by (simp add: rune_step_some [OF f] del: rune_step.simps)
  qed
qed

lemma takeWhile_all: "c \<notin> set xs \<Longrightarrow> takeWhile (\<lambda>b. b \<noteq> c) xs = xs"
  by (induction xs) auto

lemma takeWhile_pass:
  "c \<notin> set xs \<Longrightarrow> takeWhile (\<lambda>b. b \<noteq> c) (xs @ ys) = xs @ takeWhile (\<lambda>b. b \<noteq> c) ys"
  by (induction xs) auto

lemma after_last_nl_none: "nl \<notin> set xs \<Longrightarrow> after_last_nl xs = xs"
  by (simp add: after_last_nl_def takeWhile_all)

lemma after_last_nl_split: "nl \<notin> set zs \<Longrightarrow> after_last_nl (ys @ nl # zs) = zs"
  by (simp add: after_last_nl_def takeWhile_pass)

lemma after_last_nl_append_none:
  "nl \<notin> set zs \<Longrightarrow> after_last_nl (ys @ zs) = after_last_nl ys @ zs"
  by (simp add: after_last_nl_def takeWhile_pass)

lemma takeWhile_hit: "c \<in> set xs \<Longrightarrow> takeWhile (\<lambda>b. b \<noteq> c) (xs @ ys) = takeWhile (\<lambda>b. b \<noteq> c) xs"
  by (induction xs) auto

lemma after_last_nl_append_some:
  "nl \<in> set zs \<Longrightarrow> after_last_nl (ys @ zs) = after_last_nl zs"
  by (simp add: after_last_nl_def takeWhile_hit)

lemma Count_append: "Count (xs @ ys) c = Count xs c + Count ys c"
  by (simp add: Count_def)

lemma Count_zero: "Count xs c = 0 \<longleftrightarrow> c \<notin> set xs"
  by (auto simp: Count_def filter_empty_conv)

lemma Count_le: "Count xs c \<le> length xs"
  by (simp add: Count_def)

lemma last_index_from_none:
  "\<forall>j<i. s ! j \<noteq> c \<Longrightarrow> last_index_from s c i = - 1"
  by (induction i) auto

lemma last_index_from_found:
  "j < i \<Longrightarrow> s ! j = c \<Longrightarrow> \<forall>k. j < k \<and> k < i \<longrightarrow> s ! k \<noteq> c \<Longrightarrow>
   last_index_from s c i = int j"
proof (induction i)
  case 0
  then show ?case by simp
next
  case (Suc i)
  show ?case
  proof (cases "j = i")
    case True
    with Suc.prems show ?thesis by simp
  next
    case False
    with Suc.prems have "j < i" by simp
    moreover have "s ! i \<noteq> c" using Suc.prems \<open>j < i\<close> by simp
    ultimately show ?thesis using Suc by simp
  qed
qed

lemma LastIndexByte_none: "c \<notin> set xs \<Longrightarrow> LastIndexByte xs c = - 1"
  unfolding LastIndexByte_def by (rule last_index_from_none) (auto simp: in_set_conv_nth)

lemma LastIndexByte_split: "c \<notin> set zs \<Longrightarrow> LastIndexByte (ys @ c # zs) c = int (length ys)"
  unfolding LastIndexByte_def
  by (rule last_index_from_found) (auto simp: nth_append nth_Cons')

lemma RuneCount_le: "RuneCount xs \<le> length xs"
proof (induction xs rule: RuneCount.induct)
  case 1
  then show ?case by simp
next
  case (2 c cs)
  have "RuneCount (drop (rune_step (c # cs) - 1) cs) \<le> length cs"
    using 2 by (simp del: rune_step.simps) 
  then show ?case by (simp del: rune_step.simps)
qed

lemma slice_parts:
  "subslice (pre @ seg @ post) (int (length pre)) (int (length pre + length seg)) = Some seg"
  by (simp add: subslice_def)

lemma go_add_small:
  "0 \<le> a \<Longrightarrow> 0 \<le> b \<Longrightarrow> a + b \<le> max_int \<Longrightarrow> go_add a b = a + b"
  by (simp add: go_add_id min_int_def)

lemma PositionAt_parts:
  assumes B: "buf z = xs @ post" and small: "int (length (buf z)) < max_int"
  shows "PositionAt z (int (length xs)) =
           Some (1 + int (Count xs nl), 1 + int (RuneCount (after_last_nl xs)))"
proof -
  have le: "int (Count ys nl) + 1 \<le> max_int" "int (RuneCount ys) + 1 \<le> max_int"
    if "length ys \<le> length xs" for ys
    using that small B Count_le [of ys nl] RuneCount_le [of ys] by simp_all
  have up: "subslice (buf z) 0 (int (length xs)) = Some xs"
    using slice_parts [of "[]" xs post] by (simp add: B)
  show ?thesis
  proof (cases "nl \<in> set xs")
    case False
    have "subslice (buf z) 0 0 = Some []"
      by (simp add: subslice_def)
    moreover have "go_add (- 1) 1 = 0"
      by (simp add: go_add_def wrap64_def)
    ultimately show ?thesis
      using False le [of xs] le [of "[]"] Count_zero [of "[]" nl] Count_zero [of xs nl]
      by (simp add: PositionAt_def B up [simplified B] LastIndexByte_none after_last_nl_none
          go_add_small add.commute)
  next
    case True
    then obtain ys zs where xs: "xs = ys @ nl # zs" and zs: "nl \<notin> set zs"
      using split_list_last [of nl xs] by blast
    have ln: "go_add (int (length ys)) 1 = int (length (ys @ [nl]))"
      using small B xs by (simp add: go_add_small)
    have l: "subslice (buf z) 0 (int (length (ys @ [nl]))) = Some (ys @ [nl])"
      using slice_parts [of "[]" "ys @ [nl]" "zs @ post"] by (simp add: B xs)
    have s: "subslice (buf z) (int (length (ys @ [nl]))) (int (length xs)) = Some zs"
      using slice_parts [of "ys @ [nl]" zs post] by (simp add: B xs)
    have cnt: "Count (ys @ [nl]) nl = Count xs nl"
      using zs Count_zero [of zs nl] by (simp add: xs Count_append) (simp add: Count_def)
    have "PositionAt z (int (length xs)) =
            Some (go_add (int (Count (ys @ [nl]) nl)) 1, go_add (int (RuneCount zs)) 1)"
      unfolding PositionAt_def
      using zs up l s ln by (simp add: B xs LastIndexByte_split)
    then show ?thesis
      using le [of xs] le [of zs] zs
      by (simp add: cnt go_add_small after_last_nl_split xs add.commute)
  qed
qed

lemma Move_parts:
  assumes B: "buf z = pre @ seg @ post" and p: "pos z = int (length pre)"
    and n: "0 < n" and nov: "pos z + n \<le> max_int"
    and e: "min (pos z + n) (Len z) = int (length pre + length seg)"
    and small: "int (length (buf z)) < max_int"
  shows "Move z n = Some
           (if nl \<in> set seg
            then z\<lparr>line := go_add (line z) (int (Count seg nl)),
                   lastNewline := int (length pre) + LastIndexByte seg nl,
                   col := 1 + int (RuneCount (after_last_nl seg)),
                   pos := int (length pre + length seg)\<rparr>
            else z\<lparr>col := go_add (col z) (int (RuneCount seg)),
                   pos := int (length pre + length seg)\<rparr>)"
proof -
  have end0: "go_add (pos z) n = pos z + n"
    using p n nov by (simp add: go_add_small)
  have "(if go_add (pos z) n > int (length (buf z)) - 1 then int (length (buf z)) - 1
         else go_add (pos z) n) = min (pos z + n) (Len z)"
    by (simp add: end0 Len_def min_def)
  then have clamp: "(if go_add (pos z) n > int (length (buf z)) - 1 then int (length (buf z)) - 1
         else go_add (pos z) n) = int (length pre + length seg)"
    using e by simp
  have moved: "subslice (buf z) (pos z) (int (length pre + length seg)) = Some seg"
    using slice_parts [of pre seg post] by (simp add: B p)
  show ?thesis
  proof (cases "nl \<in> set seg")
    case False
    then have "Count seg nl = 0" by (simp add: Count_zero)
    then show ?thesis
      using n False unfolding Move_def clamp Let_def moved by simp
  next
    case True
    then obtain ys zs where seg: "seg = ys @ nl # zs" and zs: "nl \<notin> set zs"
      using split_list_last [of nl seg] by blast
    have cnt: "0 < Count seg nl"
      using True Count_zero [of seg nl] by simp
    have li: "LastIndexByte seg nl = int (length ys)"
      using zs by (simp add: seg LastIndexByte_split)
    have ln: "go_add (pos z) (LastIndexByte seg nl) = int (length pre) + int (length ys)"
      unfolding li p using small B by (simp add: go_add_small seg)
    have ln1: "go_add (int (length pre) + int (length ys)) 1 = int (length (pre @ ys @ [nl]))"
      using small B by (simp add: go_add_small seg)
    have rest: "subslice (buf z) (int (length (pre @ ys @ [nl]))) (int (length pre + length seg))
                  = Some zs"
      using slice_parts [of "pre @ ys @ [nl]" zs post] by (simp add: B seg add.assoc)
    have rc: "go_add (int (RuneCount zs)) 1 = 1 + int (RuneCount zs)"
      using small B RuneCount_le [of zs] by (simp add: go_add_small seg)
    have al: "after_last_nl seg = zs"
      using zs by (simp add: seg after_last_nl_split)
    show ?thesis
      using n True cnt ln ln1 rest rc unfolding Move_def clamp Let_def moved
      by (simp add: al li)
  qed
qed

section \<open>Rune boundaries\<close>

lemma RuneCount_split:
  "rune_boundary ws k \<Longrightarrow> RuneCount ws = RuneCount (take k ws) + RuneCount (drop k ws)"
proof (induction ws k rule: rune_boundary.induct)
  case (1 p)
  then show ?case by simp
next
  case (2 k)
  then show ?case by simp
next
  case (3 c cs k)
  let ?s = "rune_step (c # cs)"
  from "3.prems" have s: "?s \<le> Suc k" and rb: "rune_boundary (drop (?s - 1) cs) (Suc k - ?s)"
    by simp_all
  have pos: "0 < ?s" by (rule rune_step_pos)
  have st: "rune_step (c # take k cs) = ?s"
    using s by (rule rune_step_take)
  have t: "drop (?s - 1) (take k cs) = take (Suc k - ?s) (drop (?s - 1) cs)"
    using pos s by (simp add: drop_take)
  have d: "drop (Suc k - ?s) (drop (?s - 1) cs) = drop k cs"
    using pos s by simp
  from "3.IH" [OF rb] t d show ?case
    by (simp add: st)
qed

lemma RuneCount_append:
  "rune_boundary (us @ vs) (length us) \<Longrightarrow> RuneCount (us @ vs) = RuneCount us + RuneCount vs"
  using RuneCount_split [of "us @ vs" "length us"] by simp

lemma rune_boundary_take:
  "rune_boundary ws k \<Longrightarrow> k \<le> m \<Longrightarrow> rune_boundary (take m ws) k"
proof (induction ws k arbitrary: m rule: rune_boundary.induct)
  case (1 p)
  then show ?case by simp
next
  case (2 k)
  then show ?case by simp
next
  case (3 c cs k)
  let ?s = "rune_step (c # cs)"
  from "3.prems" have s: "?s \<le> Suc k" and rb: "rune_boundary (drop (?s - 1) cs) (Suc k - ?s)"
    by simp_all
  have pos: "0 < ?s" by (rule rune_step_pos)
  from "3.prems" obtain m' where m: "m = Suc m'" and km: "k \<le> m'"
    by (cases m) auto
  have st: "rune_step (c # take m' cs) = ?s"
    using s km by (intro rune_step_take) simp
  have t: "drop (?s - 1) (take m' cs) = take (Suc m' - ?s) (drop (?s - 1) cs)"
    using pos s km by (simp add: drop_take)
  have "rune_boundary (take (Suc m' - ?s) (drop (?s - 1) cs)) (Suc k - ?s)"
    using "3.IH" [OF rb, of "Suc m' - ?s"] km by simp
  then show ?case
    using s t by (simp add: m st)
qed

lemma rune_boundary_drop:
  "rune_boundary ws j \<Longrightarrow> rune_boundary ws k \<Longrightarrow> j \<le> k \<Longrightarrow>
   rune_boundary (drop j ws) (k - j)"
proof (induction ws j arbitrary: k rule: rune_boundary.induct)
  case (1 p)
  then show ?case by simp
next
  case (2 j)
  then show ?case by simp
next
  case (3 c cs j)
  let ?s = "rune_step (c # cs)"
  from "3.prems" have s: "?s \<le> Suc j" and rb: "rune_boundary (drop (?s - 1) cs) (Suc j - ?s)"
    by simp_all
  have pos: "0 < ?s" by (rule rune_step_pos)
  from "3.prems" obtain k' where k: "k = Suc k'" and jk: "j \<le> k'"
    by (cases k) auto
  from "3.prems"(2) have rbk: "rune_boundary (drop (?s - 1) cs) (Suc k' - ?s)"
    by (simp add: k)
  have "rune_boundary (drop (Suc j - ?s) (drop (?s - 1) cs)) ((Suc k' - ?s) - (Suc j - ?s))"
    using "3.IH" [OF rb rbk] jk by simp
  moreover have "drop (Suc j - ?s) (drop (?s - 1) cs) = drop j cs"
    using pos s by simp
  moreover have "(Suc k' - ?s) - (Suc j - ?s) = k' - j"
    using s jk by simp
  ultimately show ?case
    by (simp add: k)
qed

lemma rune_boundary_ascii:
  "j < length ws \<Longrightarrow> ws ! j < 0x80 \<Longrightarrow> rune_boundary ws j \<and> rune_boundary ws (Suc j)"
proof (induction ws j rule: rune_boundary.induct)
  case (1 p)
  then obtain c cs where p: "p = c # cs" by (cases p) auto
  with 1 have "first c = None"
    by (simp add: first_def word_less_nat_alt)
  then show ?case by (simp add: p rune_step_none)
next
  case (2 j)
  then show ?case by simp
next
  case (3 c cs j)
  let ?s = "rune_step (c # cs)"
  have pos: "0 < ?s" by (rule rune_step_pos)
  have s: "?s \<le> Suc j"
  proof (rule ccontr)
    assume "\<not> ?s \<le> Suc j"
    then have "0x80 \<le> (c # cs) ! Suc j"
      by (intro rune_step_cont) simp_all
    with "3.prems"(2) show False by simp
  qed
  have "Suc j - ?s < length (drop (?s - 1) cs)"
    using "3.prems"(1) pos s by simp
  moreover have "drop (?s - 1) cs ! (Suc j - ?s) < 0x80"
    using "3.prems" pos s by simp
  ultimately have "rune_boundary (drop (?s - 1) cs) (Suc j - ?s)
      \<and> rune_boundary (drop (?s - 1) cs) (Suc (Suc j - ?s))"
    using "3.IH" by blast
  moreover have "Suc (Suc j) - ?s = Suc (Suc j - ?s)"
    using s by simp
  ultimately show ?case
    using s by simp
qed

section \<open>Tracking the position across moves\<close>

lemma RuneCount_after_nl_append:
  assumes rb: "rune_boundary (xs @ seg) (length xs)" and no: "nl \<notin> set seg"
  shows "RuneCount (after_last_nl (xs @ seg)) = RuneCount (after_last_nl xs) + RuneCount seg"
proof (cases "nl \<in> set xs")
  case False
  then show ?thesis
    using rb no by (simp add: after_last_nl_none RuneCount_append)
next
  case True
  then obtain ys ws where xs: "xs = ys @ nl # ws" and ws: "nl \<notin> set ws"
    using split_list_last [of nl xs] by blast
  let ?full = "xs @ seg"
  have "rune_boundary ?full (length ys) \<and> rune_boundary ?full (Suc (length ys))"
    by (rule rune_boundary_ascii) (simp_all add: xs nth_append)
  then have "rune_boundary (drop (Suc (length ys)) ?full) (length xs - Suc (length ys))"
    using rb by (intro rune_boundary_drop) (simp_all add: xs)
  then have "rune_boundary (ws @ seg) (length ws)"
    by (simp add: xs)
  then have "RuneCount (ws @ seg) = RuneCount ws + RuneCount seg"
    by (rule RuneCount_append)
  then show ?thesis
    using ws no by (simp add: xs after_last_nl_split after_last_nl_append_none)
qed

lemma RuneCount_after_last_nl_le: "RuneCount (after_last_nl xs) \<le> length xs"
proof -
  have "length (after_last_nl xs) \<le> length xs"
    using length_takeWhile_le [of "\<lambda>b. b \<noteq> nl" "rev xs"] by (simp add: after_last_nl_def)
  with RuneCount_le [of "after_last_nl xs"] show ?thesis by simp
qed

lemma Move_tracked:
  assumes B: "buf z = bs @ [0]" and small: "int (length bs) + 1 < max_int"
    and p: "pos z = int (length xs)" and n: "0 < n"
    and seg: "take (length xs + nat n) bs = xs @ seg" and fit: "int (length xs) + n \<le> int (length bs)"
    and ln: "line z = 1 + int (Count xs nl)"
    and cl: "col z = 1 + int (RuneCount (after_last_nl xs))"
    and rb: "rune_boundary (xs @ seg) (length xs)"
  shows "\<exists>z'. Move z n = Some z' \<and> buf z' = buf z \<and> pos z' = pos z + n
           \<and> line z' = 1 + int (Count (xs @ seg) nl)
           \<and> col z' = 1 + int (RuneCount (after_last_nl (xs @ seg)))"
proof -
  have lseg: "length seg = nat n"
    using arg_cong [OF seg, of length] fit n by simp
  obtain post where bs: "bs = xs @ seg @ post"
    using seg append_take_drop_id [of "length xs + nat n" bs] by (metis append.assoc)
  have B': "buf z = xs @ seg @ (post @ [0])"
    by (simp add: B bs)
  have e: "min (pos z + n) (Len z) = int (length xs + length seg)"
    using fit n by (simp add: p lseg Len_def B)
  have nov: "pos z + n \<le> max_int"
    using fit small by (simp add: p)
  have small': "int (length (buf z)) < max_int"
    using small by (simp add: B)
  note mv = Move_parts [OF B' p n nov e small']
  have cnt: "int (Count xs nl) + int (Count seg nl) + 1 \<le> max_int"
    using Count_le [of xs nl] Count_le [of seg nl] small bs by simp
  have rc: "int (RuneCount (after_last_nl xs)) + int (RuneCount seg) + 1 \<le> max_int"
    using RuneCount_after_last_nl_le [of xs] RuneCount_le [of seg] small bs
    by simp
  show ?thesis
  proof (cases "nl \<in> set seg")
    case True
    have "go_add (line z) (int (Count seg nl)) = 1 + int (Count (xs @ seg) nl)"
      using cnt by (simp add: ln go_add_small Count_append)
    then show ?thesis
      using True n by (simp add: mv p lseg after_last_nl_append_some)
  next
    case False
    then have c0: "Count seg nl = 0" by (simp add: Count_zero)
    have "go_add (col z) (int (RuneCount seg)) = 1 + int (RuneCount (after_last_nl (xs @ seg)))"
      using rc by (simp add: cl go_add_small RuneCount_after_nl_append [OF rb False])
    then show ?thesis
      using False n by (simp add: mv p lseg ln Count_append c0)
  qed
qed

lemma stops_Cons:
  "ns \<noteq> [] \<Longrightarrow> set (stops p (n # ns)) = insert (p + n) (set (stops (p + n) ns))"
  by (cases ns) simp_all

lemma Moves_tracked:
  assumes "buf z = bs @ [0]" and "int (length bs) + 1 < max_int"
    and "0 \<le> pos z"
    and "line z = 1 + int (Count (take (nat (pos z)) bs) nl)"
    and "col z = 1 + int (RuneCount (after_last_nl (take (nat (pos z)) bs)))"
    and "\<forall>n\<in>set ns. 0 < n"
    and "pos z + sum_list ns = off" and "off \<le> int (length bs)"
    and "ns \<noteq> [] \<longrightarrow> rune_boundary (take (nat off) bs) (nat (pos z))"
    and "\<forall>p\<in>set (stops (pos z) ns). rune_boundary (take (nat off) bs) (nat p)"
  shows "\<exists>z'. Moves z ns = Some z' \<and> buf z' = buf z \<and> pos z' = off
           \<and> line z' = 1 + int (Count (take (nat off) bs) nl)
           \<and> col z' = 1 + int (RuneCount (after_last_nl (take (nat off) bs)))"
  using assms
proof (induction ns arbitrary: z)
  case Nil
  then show ?case by simp
next
  case (Cons n ns)
  let ?p = "nat (pos z)"
  let ?xs = "take ?p bs" and ?seg = "take (nat n) (drop ?p bs)"
  have n: "0 < n" and rest: "\<forall>m\<in>set ns. 0 < m"
    using Cons.prems(6) by simp_all
  have sum0: "0 \<le> sum_list ns"
    using rest by (induction ns) auto
  have o: "pos z + n + sum_list ns = off"
    using Cons.prems(7) by simp
  have fit: "pos z + n \<le> int (length bs)" and po: "pos z + n \<le> off"
    using o sum0 Cons.prems(8) by simp_all
  have lxs: "length ?xs = ?p"
    using fit n Cons.prems(3) by simp
  have p: "pos z = int (length ?xs)"
    using lxs Cons.prems(3) by simp
  have seg2: "take (?p + nat n) bs = ?xs @ ?seg"
    by (simp add: take_add)
  have seg: "take (length ?xs + nat n) bs = ?xs @ ?seg"
    unfolding lxs by (rule seg2)
  have fit': "int (length ?xs) + n \<le> int (length bs)"
    using fit p by simp
  have "rune_boundary (take (nat off) bs) ?p"
    using Cons.prems(9) by simp
  then have rb0: "rune_boundary (take (?p + nat n) (take (nat off) bs)) ?p"
    by (rule rune_boundary_take) simp
  have "?p + nat n \<le> nat off"
    using po n Cons.prems(3) by simp
  then have "take (?p + nat n) (take (nat off) bs) = ?xs @ ?seg"
    using seg2 by (simp add: min_def)
  with rb0 have "rune_boundary (?xs @ ?seg) ?p"
    by simp
  then have rb: "rune_boundary (?xs @ ?seg) (length ?xs)"
    unfolding lxs .
  from Move_tracked [OF Cons.prems(1,2) p n seg fit' Cons.prems(4,5) rb]
  obtain z1 where mv: "Move z n = Some z1" and b1: "buf z1 = buf z" and p1: "pos z1 = pos z + n"
    and l1: "line z1 = 1 + int (Count (?xs @ ?seg) nl)"
    and c1: "col z1 = 1 + int (RuneCount (after_last_nl (?xs @ ?seg)))"
    by blast
  have "nat (pos z1) = ?p + nat n"
    using n Cons.prems(3) by (simp add: p1 nat_add_distrib)
  then have tk: "take (nat (pos z1)) bs = ?xs @ ?seg"
    using seg2 by simp
  have nb: "ns \<noteq> [] \<longrightarrow> rune_boundary (take (nat off) bs) (nat (pos z1))"
    using Cons.prems(10) by (auto simp: stops_Cons p1)
  have st: "\<forall>q\<in>set (stops (pos z1) ns). rune_boundary (take (nat off) bs) (nat q)"
  proof (cases "ns = []")
    case True
    then show ?thesis by simp
  next
    case False
    then show ?thesis using Cons.prems(10) by (simp add: stops_Cons p1)
  qed
  have "\<exists>z'. Moves z1 ns = Some z' \<and> buf z' = buf z1 \<and> pos z' = off
           \<and> line z' = 1 + int (Count (take (nat off) bs) nl)
           \<and> col z' = 1 + int (RuneCount (after_last_nl (take (nat off) bs)))"
  proof (rule Cons.IH)
    show "buf z1 = bs @ [0]" using b1 Cons.prems(1) by simp
    show "int (length bs) + 1 < max_int" by (rule Cons.prems(2))
    show "0 \<le> pos z1" using p1 n Cons.prems(3) by simp
    show "line z1 = 1 + int (Count (take (nat (pos z1)) bs) nl)" by (simp add: l1 tk)
    show "col z1 = 1 + int (RuneCount (after_last_nl (take (nat (pos z1)) bs)))"
      by (simp add: c1 tk)
    show "\<forall>m\<in>set ns. 0 < m" by (rule rest)
    show "pos z1 + sum_list ns = off" using o p1 by simp
    show "off \<le> int (length bs)" by (rule Cons.prems(8))
    show "ns \<noteq> [] \<longrightarrow> rune_boundary (take (nat off) bs) (nat (pos z1))" by (rule nb)
    show "\<forall>q\<in>set (stops (pos z1) ns). rune_boundary (take (nat off) bs) (nat q)" by (rule st)
  qed
  then show ?case
    using mv b1 by auto
qed

lemma PositionAt_take:
  assumes B: "buf z = bs @ [0]" and small: "int (length bs) + 1 < max_int"
    and o: "0 \<le> off" "off \<le> int (length bs)"
  shows "PositionAt z off = Some (1 + int (Count (take (nat off) bs) nl),
                               1 + int (RuneCount (after_last_nl (take (nat off) bs))))"
proof -
  have "buf z = take (nat off) bs @ (drop (nat off) bs @ [0])"
    by (simp add: B)
  moreover have "int (length (buf z)) < max_int"
    using small by (simp add: B)
  ultimately have "PositionAt z (int (length (take (nat off) bs))) =
      Some (1 + int (Count (take (nat off) bs) nl),
            1 + int (RuneCount (after_last_nl (take (nat off) bs))))"
    by (rule PositionAt_parts)
  moreover have "int (length (take (nat off) bs)) = off"
    using o by simp
  ultimately show ?thesis by simp
qed

lemma Moves_Reset:
  assumes B: "buf z = bs @ [0]" and small: "int (length bs) + 1 < max_int"
    and pos: "\<forall>n\<in>set ns. 0 < n" and sum: "sum_list ns = off" and o: "off \<le> int (length bs)"
    and st: "\<forall>p\<in>set (stops 0 ns). rune_boundary (take (nat off) bs) (nat p)"
  shows "\<exists>z'. Moves (Reset z) ns = Some z' \<and> pos z' = off
           \<and> PositionAt z' off = Some (Position z')"
proof -
  have o0: "0 \<le> off"
    using pos sum by (induction ns arbitrary: off) auto
  have "\<exists>z'. Moves (Reset z) ns = Some z' \<and> buf z' = buf (Reset z) \<and> pos z' = off
           \<and> line z' = 1 + int (Count (take (nat off) bs) nl)
           \<and> col z' = 1 + int (RuneCount (after_last_nl (take (nat off) bs)))"
    using B small pos sum o st
    by (intro Moves_tracked) (simp_all add: Reset_def Count_def after_last_nl_def)
  then obtain z' where z': "Moves (Reset z) ns = Some z'" "buf z' = bs @ [0]" "pos z' = off"
      "line z' = 1 + int (Count (take (nat off) bs) nl)"
      "col z' = 1 + int (RuneCount (after_last_nl (take (nat off) bs)))"
    using B by (auto simp: Reset_def)
  from PositionAt_take [OF z'(2) small o0 o] z' show ?thesis
    by (simp add: Position_def)
qed

lemmas eval_defs =
  Move_def PositionAt_def Position_def Reset_def Len_def NewInputString_def NewInputBytes_def
  nullBuffer_def go_add_def go_sub_def wrap64_def cap_def subslice_def LastIndexByte_def
  Count_def RuneSelf_def first_def locb_def hicb_def rune_step.simps

section \<open>One move from a fresh cursor\<close>

text \<open>
  Claim C1. For an input reached from a constructed one and an offset \<open>off\<close> with
  \<open>0 \<le> off < Len\<close>, the call \<^verbatim>\<open>Reset()\<close> followed by the single call \<^verbatim>\<open>Move(off)\<close>
  returns, and afterwards \<^verbatim>\<open>Position()\<close> is the pair that \<^verbatim>\<open>PositionAt(off)\<close> returns.
\<close>

theorem Move_agrees_PositionAt:
  assumes "constructed z0" and "reaches z0 z" and "0 \<le> off" and "off < Len z"
  shows "\<exists>z'. Move (Reset z) off = Some z' \<and> PositionAt z' off = Some (Position z')"
proof -
  from reaches_buf [OF assms(1,2)] obtain bs
    where bs: "buf z = bs @ [0]" and small: "int (length bs) + 1 < max_int"
    by blast
  have le: "off \<le> int (length bs)"
    using assms(4) by (simp add: Len_def bs)
  show ?thesis
  proof (cases "off = 0")
    case True
    from Moves_Reset [OF bs small, of "[]" 0] show ?thesis
      by (simp add: True Move_def)
  next
    case False
    with assms(3) have "0 < off" by simp
    with Moves_Reset [OF bs small, of "[off]" off] le show ?thesis
      by auto
  qed
qed

theorem Move_agrees_PositionAt_witness:
  "\<exists>z'. Move (Reset (NewInputString [0x41, 0x0A, 0xC3, 0xA6, 0x42])) 4 = Some z'
        \<and> PositionAt z' 4 = Some (Position z') \<and> Position z' = (2, 2)"
proof -
  let ?z = "NewInputString [0x41, 0x0A, 0xC3, 0xA6, 0x42]"
  have c: "constructed ?z"
    unfolding NewInputString_def by (rule by_bytes) (simp add: bytes_ok_def cap_def max_int_def)
  have l: "4 < Len ?z"
    by (simp add: NewInputString_def NewInputBytes_def Len_def cap_def)
  from Move_agrees_PositionAt [OF c here _ l] obtain z'
    where z': "Move (Reset ?z) 4 = Some z'" "PositionAt z' 4 = Some (Position z')"
    by auto
  have "Move (Reset ?z) 4 \<bind> (\<lambda>z'. Some (Position z')) = Some (2, 2)"
    by (simp add: eval_defs)
  with z' show ?thesis by simp
qed

section \<open>Several moves from a fresh cursor\<close>




section \<open>Newlines and carriage returns\<close>

lemma RuneCount_snoc_ascii:
  assumes "a < 0x80"
  shows "RuneCount (xs @ [a]) = RuneCount xs + 1"
proof -
  have "rune_boundary (xs @ [a]) (length xs) \<and> rune_boundary (xs @ [a]) (Suc (length xs))"
    using assms by (intro rune_boundary_ascii) simp_all
  then have "RuneCount (xs @ [a]) = RuneCount xs + RuneCount [a]"
    by (simp add: RuneCount_append)
  then show ?thesis by simp
qed

lemma Move_crossed:
  assumes B: "buf z = bs @ [0]" and small: "int (length bs) + 1 < max_int"
    and p: "0 \<le> pos z" "pos z \<le> Len z" and n: "0 < n" and nov: "pos z + n \<le> max_int"
  shows "Move z n = Some
           (if nl \<in> set (crossed z n)
            then z\<lparr>line := go_add (line z) (int (Count (crossed z n) nl)),
                   lastNewline := pos z + LastIndexByte (crossed z n) nl,
                   col := 1 + int (RuneCount (after_last_nl (crossed z n))),
                   pos := min (pos z + n) (Len z)\<rparr>
            else z\<lparr>col := go_add (col z) (int (RuneCount (crossed z n))),
                   pos := min (pos z + n) (Len z)\<rparr>)"
proof -
  let ?p = "nat (pos z)" and ?e = "nat (min (pos z + n) (Len z))"
  let ?pre = "take ?p (buf z)" and ?post = "drop ?e (buf z)"
  have L: "Len z = int (length bs)"
    by (simp add: Len_def B)
  have pe: "?p \<le> ?e" "?e \<le> length bs"
    using p n L by simp_all
  have seg: "crossed z n = take (?e - ?p) (drop ?p (buf z))"
    by (simp add: crossed_def Let_def)
  have "take ?e (buf z) = ?pre @ crossed z n"
    using pe take_add [of ?p "?e - ?p" "buf z"] by (simp add: seg)
  then have parts: "buf z = ?pre @ crossed z n @ ?post"
    using append_take_drop_id [of ?e "buf z"] by simp
  have lpre: "length ?pre = ?p"
    using pe by (simp add: B min_def)
  have lb: "length (buf z) = Suc (length bs)"
    by (simp add: B)
  have "length (crossed z n) = min (length (buf z) - ?p) (?e - ?p)"
    by (simp add: seg)
  with pe lb have lseg: "length (crossed z n) = ?e - ?p"
    by linarith
  have pz: "pos z = int (length ?pre)"
    using p lpre by simp
  have e: "min (pos z + n) (Len z) = int (length ?pre + length (crossed z n))"
    using pe p n unfolding lpre lseg by simp
  have small': "int (length (buf z)) < max_int"
    using small by (simp add: B)
  from Move_parts [OF parts pz n nov e small'] show ?thesis
    unfolding e [symmetric] pz [symmetric] .
qed

lemma crossed_single:
  assumes "buf z = bs @ [0]" and "0 \<le> pos z" and "pos z < Len z"
  shows "crossed z 1 = [buf z ! nat (pos z)]"
proof -
  have "nat (pos z) < length (buf z)"
    using assms by (simp add: Len_def)
  then have t: "take 1 (drop (nat (pos z)) (buf z)) = [buf z ! nat (pos z)]"
    by (simp add: Cons_nth_drop_Suc [symmetric])
  have m: "nat (min (pos z + 1) (Len z)) - nat (pos z) = 1"
    using assms by simp
  show ?thesis
    unfolding crossed_def Let_def m by (rule t)
qed

text \<open>
  Claim C8. Take a state reached from a constructed input with \<open>0 \<le> pos \<le> Len\<close>, a
  \<^verbatim>\<open>Move(n)\<close> with \<open>n > 0\<close> whose sum \<open>pos + n\<close> fits an \<^verbatim>\<open>int\<close>, and an offset
  \<open>0 \<le> off \<le> Len\<close>. The move returns. If the bytes moved over hold a newline, the line
  grows by the number of newline bytes among them (an addition of Go ints) and the
  column becomes one more than the number of runes after the last of them; if they
  hold none, line and \<open>lastNewline\<close> stay and the column grows by the number of runes
  moved over. In particular a \<^verbatim>\<open>Move(1)\<close> over a carriage return leaves the line and
  adds one to the column. \<^verbatim>\<open>PositionAt(off)\<close> is one more than the number of newline
  bytes before \<open>off\<close>, and one more than the number of runes after the last of them; a
  carriage return at \<open>off\<close> adds one column to \<^verbatim>\<open>PositionAt(off + 1)\<close> and no line. On
  the input \<^verbatim>\<open>"a\r\nb\n\rc\n\n"\<close> the positions after each of nine \<^verbatim>\<open>Move(1)\<close> calls
  from the fresh state (1,1), and the values of \<^verbatim>\<open>PositionAt\<close> at the offsets 0 to 9,
  are the trace of the specification.
\<close>

theorem newline_only:
  assumes "constructed z0" and "reaches z0 z"
    and "0 \<le> pos z" and "pos z \<le> Len z" and "0 < n" and "pos z + n \<le> max_int"
    and "0 \<le> off" and "off \<le> Len z"
  shows "(\<exists>z'. Move z n = Some z'
           \<and> (nl \<in> set (crossed z n) \<longrightarrow>
                 line z' = go_add (line z) (int (Count (crossed z n) nl))
               \<and> col z' = 1 + int (RuneCount (after_last_nl (crossed z n))))
           \<and> (nl \<notin> set (crossed z n) \<longrightarrow>
                 line z' = line z \<and> lastNewline z' = lastNewline z
               \<and> col z' = go_add (col z) (int (RuneCount (crossed z n))))
           \<and> (n = 1 \<and> pos z < Len z \<and> buf z ! nat (pos z) = 0x0D \<longrightarrow>
                 line z' = line z \<and> lastNewline z' = lastNewline z
               \<and> col z' = go_add (col z) 1))
       \<and> PositionAt z off =
           Some (1 + int (Count (take (nat off) (buf z)) nl),
                 1 + int (RuneCount (after_last_nl (take (nat off) (buf z)))))
       \<and> (off < Len z \<and> buf z ! nat off = 0x0D \<longrightarrow>
             PositionAt z (off + 1) =
               Some (1 + int (Count (take (nat off) (buf z)) nl),
                     2 + int (RuneCount (after_last_nl (take (nat off) (buf z))))))
       \<and> Position (NewInputString crlf_text) = (1, 1)
       \<and> trace (NewInputString crlf_text) [1, 1, 1, 1, 1, 1, 1, 1, 1] =
           Some [(1, 2), (1, 3), (2, 1), (2, 2), (3, 1), (3, 2), (3, 3), (4, 1), (5, 1)]
       \<and> map (PositionAt (NewInputString crlf_text)) [0, 1, 2, 3, 4, 5, 6, 7, 8, 9] =
           map Some [(1, 1), (1, 2), (1, 3), (2, 1), (2, 2), (3, 1), (3, 2), (3, 3), (4, 1),
                     (5, 1)]"
proof -
  from reaches_buf [OF assms(1,2)] obtain bs
    where bs: "buf z = bs @ [0]" and small: "int (length bs) + 1 < max_int"
    by blast
  have L: "Len z = int (length bs)"
    by (simp add: Len_def bs)
  note mv = Move_crossed [OF bs small assms(3,4,5,6)]
  have cr: "nl \<notin> set (crossed z n) \<and> RuneCount (crossed z n) = 1"
    if "n = 1" and "pos z < Len z" and "buf z ! nat (pos z) = 0x0D"
    using that crossed_single [OF bs assms(3)] by simp
  have move: "\<exists>z'. Move z n = Some z'
           \<and> (nl \<in> set (crossed z n) \<longrightarrow>
                 line z' = go_add (line z) (int (Count (crossed z n) nl))
               \<and> col z' = 1 + int (RuneCount (after_last_nl (crossed z n))))
           \<and> (nl \<notin> set (crossed z n) \<longrightarrow>
                 line z' = line z \<and> lastNewline z' = lastNewline z
               \<and> col z' = go_add (col z) (int (RuneCount (crossed z n))))
           \<and> (n = 1 \<and> pos z < Len z \<and> buf z ! nat (pos z) = 0x0D \<longrightarrow>
                 line z' = line z \<and> lastNewline z' = lastNewline z
               \<and> col z' = go_add (col z) 1)"
    using cr by (auto simp: mv)
  have tk: "take (nat k) (buf z) = take (nat k) bs" if "k \<le> Len z" for k
    using that by (simp add: bs L)
  have at: "PositionAt z off =
           Some (1 + int (Count (take (nat off) (buf z)) nl),
                 1 + int (RuneCount (after_last_nl (take (nat off) (buf z)))))"
    using PositionAt_take [OF bs small assms(7)] assms(8) by (simp add: tk L)
  have cr_at: "PositionAt z (off + 1) =
               Some (1 + int (Count (take (nat off) (buf z)) nl),
                     2 + int (RuneCount (after_last_nl (take (nat off) (buf z)))))"
    if lt: "off < Len z" and b: "buf z ! nat off = 0x0D"
  proof -
    have i: "nat off < length bs"
      using lt assms(7) by (simp add: L)
    then have "bs ! nat off = 0x0D"
      using b by (simp add: bs nth_append)
    with i have t: "take (nat (off + 1)) bs = take (nat off) bs @ [0x0D]"
      using assms(7) by (simp add: nat_add_distrib take_Suc_conv_app_nth)
    have "PositionAt z (off + 1) =
           Some (1 + int (Count (take (nat (off + 1)) bs) nl),
                 1 + int (RuneCount (after_last_nl (take (nat (off + 1)) bs))))"
      using lt assms(7) by (intro PositionAt_take [OF bs small]) (simp_all add: L)
    then show ?thesis
      using lt by (simp add: t tk Count_append Count_def after_last_nl_append_none
          RuneCount_snoc_ascii)
  qed
  have t0: "Position (NewInputString crlf_text) = (1, 1)"
    by (simp add: Position_def NewInputString_def NewInputBytes_def crlf_text_def cap_def)
  have t1: "trace (NewInputString crlf_text) [1, 1, 1, 1, 1, 1, 1, 1, 1] =
           Some [(1, 2), (1, 3), (2, 1), (2, 2), (3, 1), (3, 2), (3, 3), (4, 1), (5, 1)]"
    by (simp add: crlf_text_def eval_defs)
  have t2: "map (PositionAt (NewInputString crlf_text)) [0, 1, 2, 3, 4, 5, 6, 7, 8, 9] =
           map Some [(1, 1), (1, 2), (1, 3), (2, 1), (2, 2), (3, 1), (3, 2), (3, 3), (4, 1),
                     (5, 1)]"
    by (simp add: crlf_text_def eval_defs)
  show ?thesis
    using move at cr_at t0 t1 t2 by blast
qed

theorem newline_only_witness:
  "(\<exists>z'. Move (NewInputString crlf_text) 3 = Some z' \<and> Position z' = (2, 1))
   \<and> (\<exists>z'. Move (Rewind (NewInputString crlf_text) 1) 1 = Some z' \<and> Position z' = (1, 2))
   \<and> PositionAt (NewInputString crlf_text) 1 = Some (1, 2)
   \<and> PositionAt (NewInputString crlf_text) 2 = Some (1, 3)"
proof -
  let ?z = "NewInputString crlf_text"
  have c: "constructed ?z"
    unfolding NewInputString_def
    by (rule by_bytes) (simp add: bytes_ok_def cap_def max_int_def crlf_text_def)
  have z: "pos ?z = 0" "Len ?z = 9" "line ?z = 1" "col ?z = 1"
      "buf ?z = [0x61, 0x0D, 0x0A, 0x62, 0x0A, 0x0D, 0x63, 0x0A, 0x0A, 0]"
    by (simp_all add: NewInputString_def NewInputBytes_def Len_def cap_def crlf_text_def)
  have r: "pos (Rewind ?z 1) = 1" "Len (Rewind ?z 1) = 9" "line (Rewind ?z 1) = 1"
      "col (Rewind ?z 1) = 1" "buf (Rewind ?z 1) = buf ?z"
    by (simp_all add: Rewind_def NewInputString_def NewInputBytes_def Len_def cap_def
        crlf_text_def go_add_def wrap64_def)
  have cr3: "crossed ?z 3 = [0x61, 0x0D, 0x0A]"
    unfolding crossed_def Let_def z by simp
  have a: "after_last_nl [0x61, 0x0D, 0x0A] = []"
    by (simp add: after_last_nl_def)
  have g: "go_add 1 1 = 2"
    by (simp add: go_add_def wrap64_def)
  have 1: "\<exists>z'. Move ?z 3 = Some z' \<and> Position z' = (2, 1)"
    using newline_only [OF c here, of 3 1]
    by (auto simp: z cr3 a g max_int_def Count_def Position_def)
  have 2: "\<exists>z'. Move (Rewind ?z 1) 1 = Some z' \<and> Position z' = (1, 2)"
    using newline_only [OF c rewind [OF here], of 1 1 1]
    by (auto simp: r z g max_int_def Position_def)
  have t: "take (nat 1) (buf ?z) = [0x61]"
    by (simp add: z)
  have as: "after_last_nl [0x61] = [0x61]"
    by (simp add: after_last_nl_def)
  have 3: "PositionAt ?z 1 = Some (1, 2) \<and> PositionAt ?z 2 = Some (1, 3)"
    using newline_only [OF c here, of 3 1]
    by (simp add: t as z max_int_def Count_def)
  from 1 2 3 show ?thesis by blast
qed

section \<open>The terminator\<close>

text \<open>
  Claim C3. Whatever slice or reader the input was constructed from (nil, empty, with
  spare capacity that is reused, or copied), and whatever state the cursor operations
  have led to, the buffer is the logical content followed by one zero byte: its length
  is \<open>Len + 1\<close> and the byte at index \<open>Len\<close> is 0. A \<^verbatim>\<open>Peek(offset)\<close> with
  \<open>pos + offset = Len\<close> therefore reads inside the buffer (it does not panic) and
  returns 0.
\<close>

theorem Peek_sentinel:
  assumes "constructed z0" and "reaches z0 z" and "pos z + offset = Len z"
  shows "Peek z offset = Some 0 \<and> length (buf z) = nat (Len z) + 1 \<and> 0 \<le> Len z
         \<and> buf z ! nat (Len z) = 0"
proof -
  from reaches_buf [OF assms(1,2)] obtain bs
    where bs: "buf z = bs @ [0]" and small: "int (length bs) + 1 < max_int"
    by blast
  have L: "Len z = int (length bs)"
    by (simp add: Len_def bs)
  have "go_add offset (pos z) = int (length bs)"
    using assms(3) small L by (simp add: go_add_def wrap64_id min_int_def add.commute)
  then show ?thesis
    by (simp add: Peek_def L bs)
qed

theorem Peek_sentinel_witness:
  "Peek (Rewind (NewInputBytes \<lparr>arr = [0x61, 0x62, 0x63, 0x64], len = 3\<rparr>) 1) 2 = Some 0"
proof -
  let ?b = "\<lparr>arr = [0x61, 0x62, 0x63, 0x64 :: byte], len = 3\<rparr>"
  have c: "constructed (NewInputBytes ?b)"
    by (rule by_bytes) (simp add: bytes_ok_def cap_def max_int_def)
  have r: "reaches (NewInputBytes ?b) (Rewind (NewInputBytes ?b) 1)"
    by (rule rewind) (rule here)
  have p: "pos (Rewind (NewInputBytes ?b) 1) + 2 = Len (Rewind (NewInputBytes ?b) 1)"
    by (simp add: Rewind_def NewInputBytes_def Len_def cap_def go_add_def wrap64_def)
  from Peek_sentinel [OF c r p] show ?thesis by simp
qed

section \<open>Errors\<close>

lemma err_NewInputBytes: "err (NewInputBytes b) = None"
  by (simp add: NewInputBytes_def Let_def)

lemma PeekErr_ok:
  "err z = None \<Longrightarrow> PeekErr z p = (if Len z \<le> go_add (pos z) p then Some EOF else None)"
  by (simp add: PeekErr_def Len_def)

lemma constructed_err:
  "constructed z \<Longrightarrow> err z = Some e \<Longrightarrow> buf z = [0]"
proof (induction rule: constructed.induct)
  case (by_bytes b)
  then show ?case by (simp add: err_NewInputBytes)
next
  case (by_reader r)
  then show ?case
    by (cases r rule: NewInput.cases) (simp_all add: err_NewInputBytes nullBuffer_def)
qed

text \<open>
  What the source does. In any state reached from a constructed input: if the
  construction recorded a load error (only \<^verbatim>\<open>NewInput\<close> on a reader whose \<^verbatim>\<open>io.ReadAll\<close>
  fails does), \<^verbatim>\<open>PeekErr(offset)\<close> is that error at every position and for every offset,
  and \<open>Len\<close> is 0. Otherwise \<^verbatim>\<open>PeekErr(offset)\<close> compares \<open>Len\<close> with the sum of two Go
  ints; as long as \<open>pos + offset\<close> fits an \<^verbatim>\<open>int\<close> it is \<^verbatim>\<open>io.EOF\<close> exactly when
  \<open>Len \<le> pos + offset\<close> and \<^verbatim>\<open>nil\<close> otherwise. \<^verbatim>\<open>Err()\<close> is \<^verbatim>\<open>PeekErr(0)\<close>.
\<close>

lemma PeekErr_within_range:
  assumes "constructed z0" and "reaches z0 z"
  shows "(\<forall>e. err z0 = Some e \<longrightarrow> PeekErr z offset = Some e \<and> Len z = 0)
       \<and> (err z0 = None \<longrightarrow>
            PeekErr z offset = (if Len z \<le> go_add (pos z) offset then Some EOF else None)
            \<and> (in_range (pos z + offset) \<longrightarrow>
                 (PeekErr z offset = Some EOF \<longleftrightarrow> Len z \<le> pos z + offset)
               \<and> (PeekErr z offset = None \<longleftrightarrow> pos z + offset < Len z)))
       \<and> Err z = PeekErr z 0
       \<and> err (NewInput (PlainReader b (Some e'))) = Some e'
       \<and> err (NewInputBytes b) = None"
proof -
  note fr = reaches_frame [OF assms(2)]
  have a: "PeekErr z offset = Some e \<and> Len z = 0" if "err z0 = Some e" for e
    using that fr constructed_err [OF assms(1) that] by (simp add: PeekErr_def Len_def)
  have b: "PeekErr z offset = (if Len z \<le> go_add (pos z) offset then Some EOF else None)"
    if "err z0 = None"
    using that fr by (simp add: PeekErr_ok)
  have c: "(PeekErr z offset = Some EOF \<longleftrightarrow> Len z \<le> pos z + offset)
         \<and> (PeekErr z offset = None \<longleftrightarrow> pos z + offset < Len z)"
    if "err z0 = None" and "in_range (pos z + offset)"
    using that b by (auto simp: in_range_def go_add_id)
  show ?thesis
    using a b c by (simp add: Err_def err_NewInputBytes)
qed

lemma PeekErr_within_range_example:
  "PeekErr (Rewind (NewInput (PlainReader \<lparr>arr = [0x61], len = 1\<rparr> (Some (ReadError ''broken pipe'')))) 7) 3
     = Some (ReadError ''broken pipe'')
   \<and> PeekErr (NewInputBytes \<lparr>arr = [0x61, 0x62], len = 2\<rparr>) 1 = None
   \<and> PeekErr (NewInputBytes \<lparr>arr = [0x61, 0x62], len = 2\<rparr>) 2 = Some EOF"
proof -
  let ?b = "\<lparr>arr = [0x61 :: byte], len = 1\<rparr>" and ?c = "\<lparr>arr = [0x61, 0x62 :: byte], len = 2\<rparr>"
  let ?e = "ReadError ''broken pipe''"
  have c1: "constructed (NewInput (PlainReader ?b (Some ?e)))"
    by (rule by_reader) (simp add: bytes_ok_def cap_def max_int_def)
  have r: "reaches (NewInput (PlainReader ?b (Some ?e))) (Rewind (NewInput (PlainReader ?b (Some ?e))) 7)"
    by (rule rewind) (rule here)
  have 1: "PeekErr (Rewind (NewInput (PlainReader ?b (Some ?e))) 7) 3 = Some ?e"
    using PeekErr_within_range [OF c1 r, of 3] by simp
  have c2: "constructed (NewInputBytes ?c)"
    by (rule by_bytes) (simp add: bytes_ok_def cap_def max_int_def)
  have p: "pos (NewInputBytes ?c) = 0" "Len (NewInputBytes ?c) = 2"
    by (simp_all add: NewInputBytes_def Len_def cap_def)
  have 2: "PeekErr (NewInputBytes ?c) 1 = None"
    using PeekErr_within_range [OF c2 here, of 1] p
    by (simp add: in_range_def min_int_def max_int_def err_NewInputBytes go_add_def wrap64_def)
  have 3: "PeekErr (NewInputBytes ?c) 2 = Some EOF"
    using PeekErr_within_range [OF c2 here, of 2] p
    by (simp add: in_range_def min_int_def max_int_def err_NewInputBytes go_add_def wrap64_def)
  from 1 2 3 show ?thesis by simp
qed

text \<open>
  Claim C9 asks, for every state and every offset \<open>\<ge> 0\<close>, that without a load error
  \<^verbatim>\<open>PeekErr(offset)\<close> is \<^verbatim>\<open>io.EOF\<close> exactly when \<open>pos + offset \<ge> Len\<close>. The source compares
  \<open>Len\<close> with the machine sum \<^verbatim>\<open>z.pos+pos\<close>. On the input \<^verbatim>\<open>"ab"\<close>, \<^verbatim>\<open>Move(1)\<close> leaves the
  cursor at 1 with \<open>Len = 2\<close> and no error; then for the offset \<open>2^63 - 1\<close> the sum
  wraps to \<open>- 2^63\<close>, the test \<open>2 \<le> - 2^63\<close> fails, and \<^verbatim>\<open>PeekErr(9223372036854775807)\<close>
  is \<^verbatim>\<open>nil\<close> although \<open>pos + offset\<close> is far past the end.
\<close>

theorem PeekErr_overflow_nil:
  "Move (NewInputString [0x61, 0x62]) 1 = Some ((NewInputString [0x61, 0x62])\<lparr>col := 2, pos := 1\<rparr>)
   \<and> err ((NewInputString [0x61, 0x62])\<lparr>col := 2, pos := 1\<rparr>) = None
   \<and> Len ((NewInputString [0x61, 0x62])\<lparr>col := 2, pos := 1\<rparr>) = 2
   \<and> Len ((NewInputString [0x61, 0x62])\<lparr>col := 2, pos := 1\<rparr>)
       \<le> pos ((NewInputString [0x61, 0x62])\<lparr>col := 2, pos := 1\<rparr>) + 9223372036854775807
   \<and> PeekErr ((NewInputString [0x61, 0x62])\<lparr>col := 2, pos := 1\<rparr>) 9223372036854775807 = None
   \<and> PeekErr ((NewInputString [0x61, 0x62])\<lparr>col := 2, pos := 1\<rparr>) 1 = Some EOF"
  by (simp add: eval_defs PeekErr_def)

section \<open>Decoding the rune at the head\<close>

lemma ucast_mask: "(ucast (c AND m) :: rune) = ucast (c :: byte) AND ucast m"
  by (simp add: unsigned_and_eq)

lemma Peek_in:
  assumes "0 \<le> pos z" and "0 \<le> k" and "pos z + k < int (length (buf z))"
    and "int (length (buf z)) \<le> max_int"
  shows "Peek z k = Some (buf z ! nat (pos z + k))"
proof -
  have "go_add k (pos z) = pos z + k"
    using assms by (simp add: go_add_def wrap64_id min_int_def add.commute)
  then show ?thesis using assms by (simp add: Peek_def)
qed

text \<open>
  Claim C7. In a state reached from a constructed input with \<open>0 \<le> pos \<le> Len\<close>,
  \<^verbatim>\<open>PeekRune(0)\<close> returns, without a panic, what \<open>spec_head_rune\<close> says: the byte itself
  with length 1 when it is below \<^verbatim>\<open>0xC0\<close> or fewer than 2 bytes are left, and otherwise a
  code point of 2, 3 or 4 bytes chosen by the leading byte and the bytes left, built
  from the masked following bytes with no check that they are continuation bytes and
  no rejection of overlong forms.
\<close>

theorem PeekRune_head:
  assumes "constructed z0" and "reaches z0 z" and "0 \<le> pos z" and "pos z \<le> Len z"
  shows "PeekRune z 0 = Some (spec_head_rune (buf z) (Len z) (pos z))"
proof -
  from reaches_buf [OF assms(1,2)] obtain bs
    where bs: "buf z = bs @ [0]" and small: "int (length bs) + 1 < max_int"
    by blast
  have len: "int (length (buf z)) \<le> max_int" "Len z = int (length (buf z)) - 1"
    using small by (simp_all add: bs Len_def)
  have r: "go_sub (int (length (buf z)) - 1) (pos z) = Len z - pos z"
    using assms(3,4) len by (simp add: go_sub_def wrap64_id min_int_def)
  have adds: "go_add 0 1 = 1" "go_add 0 2 = 2" "go_add 0 3 = 3"
    by (simp_all add: go_add_def wrap64_def)
  have p0: "Peek z 0 = Some (buf z ! nat (pos z))"
    using Peek_in [of z 0] assms(3,4) len by simp
  have p1: "Peek z 1 = Some (buf z ! nat (pos z + 1))" if "2 \<le> Len z - pos z"
    using Peek_in [of z 1] assms(3) len that by simp
  have p2: "Peek z 2 = Some (buf z ! nat (pos z + 2))" if "3 \<le> Len z - pos z"
    using Peek_in [of z 2] assms(3) len that by simp
  have p3: "Peek z 3 = Some (buf z ! nat (pos z + 3))" if "4 \<le> Len z - pos z"
    using Peek_in [of z 3] assms(3) len that by simp
  show ?thesis
    unfolding PeekRune_def spec_head_rune_def r adds p0
    by (simp add: Let_def p1 p2 p3 ucast_mask)
qed

theorem PeekRune_head_witness:
  "PeekRune (NewInputString [0xC0, 0x41, 0x42]) 0 = Some (1, 2)"
proof -
  let ?z = "NewInputString [0xC0, 0x41, 0x42]"
  have c: "constructed ?z"
    unfolding NewInputString_def by (rule by_bytes) (simp add: bytes_ok_def cap_def max_int_def)
  have p: "0 \<le> pos ?z" "pos ?z \<le> Len ?z"
    by (simp_all add: NewInputString_def NewInputBytes_def Len_def cap_def)
  from PeekRune_head [OF c here p] show ?thesis
    by (simp add: spec_head_rune_def NewInputString_def NewInputBytes_def Len_def cap_def)
qed

section \<open>Decoding a rune away from the head\<close>

text \<open>
  Claim C4 asks that \<^verbatim>\<open>PeekRune(offset)\<close> never reads past the terminator whenever
  \<open>pos + offset \<le> Len\<close>. The guard of the source counts the bytes left after \<open>pos\<close>,
  not after \<open>pos + offset\<close>. On the input \<^verbatim>\<open>"ab\xE0"\<close> (so \<open>Len = 3\<close>) with the cursor at
  0, \<^verbatim>\<open>PeekRune(2)\<close> finds the leading byte \<^verbatim>\<open>0xE0\<close> of a three-byte encoding, sees three
  bytes left after \<open>pos\<close>, and reads the indices 3 and 4; the buffer has length 4 and
  the call panics.
\<close>

theorem PeekRune_offset_panics:
  "pos (NewInputString [0x61, 0x62, 0xE0]) = 0 \<and> Len (NewInputString [0x61, 0x62, 0xE0]) = 3
   \<and> PeekRune (NewInputString [0x61, 0x62, 0xE0]) 2 = None"
  by (simp add: PeekRune_def Peek_def Len_def NewInputString_def NewInputBytes_def go_add_def
      go_sub_def wrap64_def cap_def)

section \<open>Positions past the end\<close>

text \<open>
  For every offset greater than \<open>Len\<close> the source clamps to the length of the buffer
  with its terminator, and the terminator counts as one rune: the line is that of
  \<^verbatim>\<open>PositionAt(Len)\<close> and the column is one more.
\<close>

lemma PositionAt_clamped:
  assumes "constructed z0" and "reaches z0 z" and "Len z < off"
  shows "PositionAt z off =
           Some (1 + int (Count (take (nat (Len z)) (buf z)) nl),
                 2 + int (RuneCount (after_last_nl (take (nat (Len z)) (buf z)))))"
proof -
  from reaches_buf [OF assms(1,2)] obtain bs
    where bs: "buf z = bs @ [0]" and small: "int (length bs) + 1 < max_int"
    by blast
  have L: "Len z = int (length bs)"
    by (simp add: Len_def bs)
  have "PositionAt z off = PositionAt z (int (length (bs @ [0])))"
  proof (cases "off = int (length (bs @ [0]))")
    case True
    then show ?thesis by simp
  next
    case False
    with assms(3) have "int (length (buf z)) < off"
      by (simp add: L bs)
    then show ?thesis
      by (simp add: PositionAt_def bs)
  qed
  also have "\<dots> = Some (1 + int (Count (bs @ [0]) nl),
                          1 + int (RuneCount (after_last_nl (bs @ [0]))))"
    using small by (intro PositionAt_parts [where post = "[]"]) (simp_all add: bs)
  finally show ?thesis
    by (simp add: L bs Count_append Count_def after_last_nl_append_none RuneCount_snoc_ascii)
qed

text \<open>
  Claim C5 asks that \<^verbatim>\<open>PositionAt(offset)\<close> for an offset greater than \<open>Len\<close> gives what
  \<^verbatim>\<open>PositionAt(Len)\<close> gives. The source clamps the offset to \<open>Len + 1\<close>, not to \<open>Len\<close>.
  On the input \<^verbatim>\<open>"a"\<close>, \<^verbatim>\<open>PositionAt(5)\<close> is line 1, column 3, and \<^verbatim>\<open>PositionAt(1)\<close> is
  line 1, column 2.
\<close>

theorem PositionAt_past_end:
  "Len (NewInputString [0x61]) = 1 \<and> PositionAt (NewInputString [0x61]) 5 = Some (1, 3)
   \<and> PositionAt (NewInputString [0x61]) 1 = Some (1, 2)"
  by (simp add: PositionAt_def Len_def NewInputString_def NewInputBytes_def go_add_def
      wrap64_def cap_def subslice_def LastIndexByte_def Count_def RuneSelf_def rune_step.simps)

section \<open>Moving by more than an int can hold\<close>

text \<open>
  With the cursor inside the buffer, \<^verbatim>\<open>Move(n)\<close> does nothing for \<open>n \<le> 0\<close>, and for
  \<open>n > 0\<close> it returns with \<open>pos\<close> at \<open>min (pos + n) Len\<close> and \<open>start\<close> unchanged as long
  as the sum \<open>pos + n\<close> fits an \<^verbatim>\<open>int\<close>.
\<close>

lemma Move_in_range:
  assumes "constructed z0" and "reaches z0 z" and "0 \<le> pos z" and "pos z \<le> Len z"
  shows "(n \<le> 0 \<longrightarrow> Move z n = Some z)
       \<and> (0 < n \<and> pos z + n \<le> max_int \<longrightarrow>
            (\<exists>z'. Move z n = Some z' \<and> pos z' = min (pos z + n) (Len z)
                  \<and> start z' = start z \<and> buf z' = buf z))"
proof -
  from reaches_buf [OF assms(1,2)] obtain bs
    where bs: "buf z = bs @ [0]" and small: "int (length bs) + 1 < max_int"
    by blast
  have "\<exists>z'. Move z n = Some z' \<and> pos z' = min (pos z + n) (Len z)
                  \<and> start z' = start z \<and> buf z' = buf z"
    if "0 < n" and "pos z + n \<le> max_int"
    using Move_crossed [OF bs small assms(3,4) that] by simp
  then show ?thesis
    by (simp add: Move_def)
qed

text \<open>
  Claim C6 asks that \<^verbatim>\<open>Move(n)\<close> with \<open>n > 0\<close> sets \<open>pos\<close> to \<open>min (pos + n) Len\<close> for every
  \<open>n\<close>. The source adds before it clamps. On the input \<^verbatim>\<open>"ab"\<close>, after \<^verbatim>\<open>Move(1)\<close> the
  cursor is at 1 with \<open>Len = 2\<close>; then \<^verbatim>\<open>Move(9223372036854775807)\<close> computes
  \<open>1 + (2^63 - 1)\<close>, which wraps to \<open>- 2^63\<close>, is not clamped, and the slice
  \<^verbatim>\<open>z.buf[1:end]\<close> with a negative end panics.
\<close>

theorem Move_overflow_panics:
  "map_option pos (Move (NewInputString [0x61, 0x62]) 1) = Some 1
   \<and> map_option Len (Move (NewInputString [0x61, 0x62]) 1) = Some 2
   \<and> Moves (NewInputString [0x61, 0x62]) [1, 9223372036854775807] = None"
  by (simp add: eval_defs)

section \<open>Rewinding\<close>

text \<open>
  Claim C10. \<^verbatim>\<open>Rewind(mark)\<close> writes \<open>start + mark\<close> (the sum of two Go ints, which is the
  mathematical sum whenever that fits an \<^verbatim>\<open>int\<close>) to \<open>pos\<close>, without clamping, and
  leaves every other field as it was. \<^verbatim>\<open>Position()\<close> after the call is therefore the
  cached line and column from before it.
\<close>

theorem Rewind_frame:
  "pos (Rewind z mark) = go_add (start z) mark
   \<and> (in_range (start z + mark) \<longrightarrow> pos (Rewind z mark) = start z + mark)
   \<and> start (Rewind z mark) = start z \<and> line (Rewind z mark) = line z
   \<and> col (Rewind z mark) = col z \<and> lastNewline (Rewind z mark) = lastNewline z
   \<and> buf (Rewind z mark) = buf z \<and> err (Rewind z mark) = err z
   \<and> restore (Rewind z mark) = restore z
   \<and> Position (Rewind z mark) = Position z"
  by (simp add: Rewind_def Position_def in_range_def go_add_id)

theorem Rewind_frame_witness:
  "in_range (start (NewInputString [0x61, 0x0A, 0x62]) + 1000)
   \<and> pos (Rewind (NewInputString [0x61, 0x0A, 0x62]) 1000) = 1000
   \<and> Position (Rewind (NewInputString [0x61, 0x0A, 0x62]) 1000) = (1, 1)"
  using Rewind_frame [of "NewInputString [0x61, 0x0A, 0x62]" 1000]
  by (simp add: in_range_def min_int_def max_int_def NewInputString_def NewInputBytes_def
      Position_def cap_def)

text \<open>
  The cached position can differ from the recomputed one: on \<^verbatim>\<open>"a\nb"\<close>, after
  \<^verbatim>\<open>Move(2)\<close> and \<^verbatim>\<open>Rewind(0)\<close> the cursor is at 0, \<^verbatim>\<open>Position()\<close> is still (2,1) and
  \<^verbatim>\<open>PositionAt(0)\<close> is (1,1).
\<close>

lemma Rewind_stale_example:
  "map_option (\<lambda>z. Position (Rewind z 0)) (Move (NewInputString [0x61, 0x0A, 0x62]) 2) = Some (2, 1)
   \<and> map_option (\<lambda>z. PositionAt (Rewind z 0) (pos (Rewind z 0)))
         (Move (NewInputString [0x61, 0x0A, 0x62]) 2) = Some (Some (1, 1))"
  by (simp add: eval_defs Rewind_def)

end
